theory Spec2Isabelle
  imports Main "HOL-Library.Word" "HOL-Library.Multiset"
begin

section \<open>JavaScript strings\<close>

text \<open>
  A JavaScript string is a sequence of UTF-16 code units. Literals of the script are
  written \<open>js ''...''\<close>.
\<close>

type_synonym jschar = "16 word"
type_synonym jsstring = "jschar list"

definition js :: "string \<Rightarrow> jsstring" where
  "js s = map (\<lambda>c. of_nat (of_char c)) s"

definition chTab :: jschar where "chTab = 0x09"
definition chNl :: jschar where "chNl = 0x0A"
definition chSpace :: jschar where "chSpace = 0x20"
definition chDash :: jschar where "chDash = 0x2D"
definition chColon :: jschar where "chColon = 0x3A"
definition chA :: jschar where "chA = 0x41"
definition chBar :: jschar where "chBar = 0x7C"

text \<open>The regular expression class \<open>\d\<close>: the ten ASCII digits.\<close>

definition isDigit :: "jschar \<Rightarrow> bool" where
  "isDigit c = (0x30 \<le> c \<and> c \<le> 0x39)"

text \<open>
  What \<open>String.prototype.trim\<close> strips: the WhiteSpace and LineTerminator code points
  of ECMAScript.
\<close>

definition isWhiteSpace :: "jschar \<Rightarrow> bool" where
  "isWhiteSpace c =
     (c = 0x09 \<or> c = 0x0A \<or> c = 0x0B \<or> c = 0x0C \<or> c = 0x0D \<or> c = 0x20 \<or> c = 0xA0
      \<or> c = 0x1680 \<or> (0x2000 \<le> c \<and> c \<le> 0x200A) \<or> c = 0x2028 \<or> c = 0x2029
      \<or> c = 0x202F \<or> c = 0x205F \<or> c = 0x3000 \<or> c = 0xFEFF)"

definition trimStart :: "jsstring \<Rightarrow> jsstring" where
  "trimStart s = dropWhile isWhiteSpace s"

definition trimEnd :: "jsstring \<Rightarrow> jsstring" where
  "trimEnd s = rev (dropWhile isWhiteSpace (rev s))"

definition trim :: "jsstring \<Rightarrow> jsstring" where
  "trim s = trimEnd (trimStart s)"

text \<open>\<open>s.split(sep)\<close> for a separator of one code unit: never an empty array.\<close>

fun split :: "jschar \<Rightarrow> jsstring \<Rightarrow> jsstring list" where
  "split sep [] = [[]]"
| "split sep (c # cs) =
     (if c = sep then [] # split sep cs
      else (case split sep cs of
              [] \<Rightarrow> [[c]]
            | p # ps \<Rightarrow> (c # p) # ps))"

definition startsWith :: "jsstring \<Rightarrow> jsstring \<Rightarrow> bool" where
  "startsWith s p = (take (length p) s = p)"

text \<open>\<open>text.includes(pattern)\<close>: the pattern occurs at some position.\<close>

fun includes' :: "jsstring \<Rightarrow> jsstring \<Rightarrow> bool" where
  "includes' [] p = (p = [])"
| "includes' (c # cs) p = (startsWith (c # cs) p \<or> includes' cs p)"

text \<open>\<open>s.replace(c, r)\<close> with a string pattern of one code unit: the first occurrence only.\<close>

fun replace :: "jschar \<Rightarrow> jsstring \<Rightarrow> jsstring \<Rightarrow> jsstring" where
  "replace c r [] = []"
| "replace c r (x # xs) = (if x = c then r @ xs else x # replace c r xs)"

text \<open>\<open>xs[i]\<close>: \<open>None\<close> is \<open>undefined\<close>.\<close>

definition at :: "'a list \<Rightarrow> nat \<Rightarrow> 'a option" where
  "at xs i = (if i < length xs then Some (xs ! i) else None)"

text \<open>
  What the script can throw: a \<open>TypeError\<close> of the engine (a method called on
  \<open>undefined\<close> or \<open>null\<close>), and its own \<open>new Error(message)\<close>, with which the
  dialog waits reject.
\<close>

datatype type_error = TypeError

datatype error = Error jsstring

fun message :: "error \<Rightarrow> jsstring" where
  "message (Error m) = m"

section \<open>Schedule parser\<close>

record event =
  date :: jsstring
  startTime :: jsstring
  endTime :: jsstring
  room :: jsstring
  name :: jsstring

text \<open>
  A fixed-width piece of a pattern, one class per code unit: the matched text and the
  rest of the input.
\<close>

fun matchSeq :: "(jschar \<Rightarrow> bool) list \<Rightarrow> jsstring \<Rightarrow> (jsstring \<times> jsstring) option" where
  "matchSeq [] s = Some ([], s)"
| "matchSeq (p # ps) [] = None"
| "matchSeq (p # ps) (c # cs) =
     (if p c then (case matchSeq ps cs of
                     None \<Rightarrow> None
                   | Some (m, r) \<Rightarrow> Some (c # m, r))
      else None)"

text \<open>\<open>\d{4}-\d{2}-\d{2}\<close>\<close>

definition datePattern :: "(jschar \<Rightarrow> bool) list" where
  "datePattern = [isDigit, isDigit, isDigit, isDigit, (\<lambda>c. c = chDash),
                  isDigit, isDigit, (\<lambda>c. c = chDash), isDigit, isDigit]"

text \<open>\<open>\d{2}:\d{2}\<close>\<close>

definition timePattern :: "(jschar \<Rightarrow> bool) list" where
  "timePattern = [isDigit, isDigit, (\<lambda>c. c = chColon), isDigit, isDigit]"

text \<open>
  \<open>A-?\d+\<close>: the letter A, a dash if there is one, and the longest run of digits, which
  must not be empty. (When the dash is followed by no digit, the alternative without
  the dash needs a digit in the dash's place, and fails too.)
\<close>

definition matchRoom :: "jsstring \<Rightarrow> jsstring option" where
  "matchRoom s =
     (case s of
        [] \<Rightarrow> None
      | c # r \<Rightarrow>
          if c = chA then
            (let (d, r') = (case r of
                              [] \<Rightarrow> ([], [])
                            | x # xs \<Rightarrow> if x = chDash then ([chDash], xs) else ([], r));
                 ds = takeWhile isDigit r'
             in if ds = [] then None else Some (c # d @ ds))
          else None)"

text \<open>
  \<open>entry.match(/^(\d{4}-\d{2}-\d{2})\|(\d{2}:\d{2})\|(\d{2}:\d{2})\|(A-?\d+)/)\<close>:
  \<open>None\<close> is \<open>null\<close>, otherwise the four groups.
\<close>

definition headerMatch :: "jsstring \<Rightarrow> (jsstring \<times> jsstring \<times> jsstring \<times> jsstring) option" where
  "headerMatch entry =
     (case matchSeq datePattern entry of
        None \<Rightarrow> None
      | Some (d, r1) \<Rightarrow>
     (case matchSeq [\<lambda>c. c = chBar] r1 of
        None \<Rightarrow> None
      | Some (_, r2) \<Rightarrow>
     (case matchSeq timePattern r2 of
        None \<Rightarrow> None
      | Some (s, r3) \<Rightarrow>
     (case matchSeq [\<lambda>c. c = chBar] r3 of
        None \<Rightarrow> None
      | Some (_, r4) \<Rightarrow>
     (case matchSeq timePattern r4 of
        None \<Rightarrow> None
      | Some (e, r5) \<Rightarrow>
     (case matchSeq [\<lambda>c. c = chBar] r5 of
        None \<Rightarrow> None
      | Some (_, r6) \<Rightarrow>
     (case matchRoom r6 of
        None \<Rightarrow> None
      | Some rm \<Rightarrow> Some (d, s, e, rm))))))))"

text \<open>\<open>name.match(/^\d{4}-\d{2}-\d{2}/)\<close> is not \<open>null\<close>.\<close>

definition datePrefixed :: "jsstring \<Rightarrow> bool" where
  "datePrefixed s = (matchSeq datePattern s \<noteq> None)"

text \<open>
  The loop over the entries of one line, from index \<open>i\<close>, with the events pushed so
  far. A method call on \<open>undefined\<close> or \<open>null\<close> is a \<open>TypeError\<close>.
\<close>

function parseEntries :: "jsstring list \<Rightarrow> nat \<Rightarrow> event list \<Rightarrow> type_error + event list" where
  "parseEntries entries i events =
     (if i < length entries then
        (case at entries i of
           None \<Rightarrow> Inl TypeError
         | Some e \<Rightarrow>
             (let entry = trim e; match = headerMatch entry in
              if match \<noteq> None \<and> i + 1 < length entries then
                (case at entries (i + 1) of
                   None \<Rightarrow> Inl TypeError
                 | Some e' \<Rightarrow>
                     (let name = trim e' in
                      if name \<noteq> [] \<and> \<not> datePrefixed name then
                        (case match of
                           None \<Rightarrow> Inl TypeError
                         | Some (m1, m2, m3, m4) \<Rightarrow>
                             parseEntries entries (i + 1 + 1)
                               (events @ [\<lparr>date = m1, startTime = m2, endTime = m3,
                                           room = replace chDash [] m4, name = name\<rparr>]))
                      else parseEntries entries (i + 1) events))
              else parseEntries entries (i + 1) events))
      else Inr events)"
  by pat_completeness auto
termination
  by (relation "measure (\<lambda>(entries, i, events). length entries - i)") auto

declare parseEntries.simps [simp del]

text \<open>The loop over the lines.\<close>

fun parseLines :: "jsstring list \<Rightarrow> event list \<Rightarrow> type_error + event list" where
  "parseLines [] events = Inr events"
| "parseLines (line # lines) events =
     (if trim line = [] then parseLines lines events
      else (case parseEntries (filter (\<lambda>e. trim e \<noteq> []) (split chTab line)) 0 events of
              Inl err \<Rightarrow> Inl err
            | Inr events' \<Rightarrow> parseLines lines events'))"

definition parseSchedule :: "jsstring \<Rightarrow> type_error + event list" where
  "parseSchedule input = parseLines (split chNl (trim input)) []"

subsection \<open>Well-formed cells\<close>

text \<open>
  The vocabulary of the properties below: a date, a time, a letter, the characters a
  slot header is made of, the header built from its four parts, and what the parser
  leaves in the room and name of an event.
\<close>

definition isLetter :: "jschar \<Rightarrow> bool" where
  "isLetter c = ((0x41 \<le> c \<and> c \<le> 0x5A) \<or> (0x61 \<le> c \<and> c \<le> 0x7A))"

definition headerChar :: "jschar \<Rightarrow> bool" where
  "headerChar c = (isDigit c \<or> c = chDash \<or> c = chColon \<or> c = chBar \<or> isLetter c)"

definition isDate :: "jsstring \<Rightarrow> bool" where
  "isDate s = (matchSeq datePattern s = Some (s, []))"

definition isTime :: "jsstring \<Rightarrow> bool" where
  "isTime s = (matchSeq timePattern s = Some (s, []))"

definition slotHeader :: "jsstring \<Rightarrow> jsstring \<Rightarrow> jsstring \<Rightarrow> jsstring \<Rightarrow> jsstring" where
  "slotHeader d s e rm = d @ chBar # s @ chBar # e @ chBar # rm"

definition roomInv :: "jsstring \<Rightarrow> bool" where
  "roomInv r = (case r of [] \<Rightarrow> False | c # ds \<Rightarrow> c = chA \<and> ds \<noteq> [] \<and> list_all isDigit ds)"

definition eventInv :: "event \<Rightarrow> bool" where
  "eventInv ev = (roomInv (room ev) \<and> name ev \<noteq> [] \<and> \<not> datePrefixed (name ev))"

section \<open>The UI surface\<close>

text \<open>
  The render tree of the host page, as far as the script reads it: text nodes, and
  elements with their tag, \<open>id\<close>, class list, \<open>onclick\<close> attribute and
  \<open>style.display\<close> (an absent attribute is the empty string).
\<close>

record attrs =
  tag :: jsstring
  ident :: jsstring
  classes :: "jsstring list"
  onclick :: jsstring
  display :: jsstring

datatype node = Text jsstring | Element attrs "node list"

text \<open>A reference to an element: the child indices that lead to it from the root.\<close>

type_synonym handle = "nat list"

fun textContent :: "node \<Rightarrow> jsstring" where
  "textContent (Text s) = s"
| "textContent (Element a kids) = concat (map textContent kids)"

fun nodeAt :: "node \<Rightarrow> handle \<Rightarrow> node option" where
  "nodeAt n [] = Some n"
| "nodeAt (Text s) (i # p) = None"
| "nodeAt (Element a kids) (i # p) = (if i < length kids then nodeAt (kids ! i) p else None)"

text \<open>Whether the node at a handle is an element that a selector accepts.\<close>

definition matches :: "(attrs \<Rightarrow> bool) \<Rightarrow> node \<Rightarrow> handle \<Rightarrow> bool" where
  "matches sel doc p =
     (case nodeAt doc p of
        Some (Element a kids) \<Rightarrow> sel a
      | _ \<Rightarrow> False)"

definition textContentAt :: "node \<Rightarrow> handle \<Rightarrow> jsstring" where
  "textContentAt doc p = (case nodeAt doc p of Some n \<Rightarrow> textContent n | None \<Rightarrow> [])"

text \<open>The element descendants of a node in document order, as handles relative to it.\<close>

fun descendants :: "node \<Rightarrow> handle list"
  and descendantsFrom :: "nat \<Rightarrow> node list \<Rightarrow> handle list" where
  "descendants (Text s) = []"
| "descendants (Element a kids) = descendantsFrom 0 kids"
| "descendantsFrom i [] = []"
| "descendantsFrom i (k # ks) =
     (case k of
        Text s \<Rightarrow> []
      | Element a kids \<Rightarrow> [i] # map ((#) i) (descendants k))
     @ descendantsFrom (Suc i) ks"

text \<open>\<open>ctx.querySelectorAll(sel)\<close> and \<open>ctx.querySelector(sel)\<close> for a simple selector.\<close>

definition querySelectorAll :: "(attrs \<Rightarrow> bool) \<Rightarrow> node \<Rightarrow> handle \<Rightarrow> handle list" where
  "querySelectorAll sel doc ctx =
     (case nodeAt doc ctx of
        None \<Rightarrow> []
      | Some n \<Rightarrow> filter (matches sel doc) (map ((@) ctx) (descendants n)))"

definition querySelector :: "(attrs \<Rightarrow> bool) \<Rightarrow> node \<Rightarrow> handle \<Rightarrow> handle option" where
  "querySelector sel doc ctx =
     (case querySelectorAll sel doc ctx of [] \<Rightarrow> None | p # ps \<Rightarrow> Some p)"

text \<open>Every element of the document in document order, the root first.\<close>

definition allElements :: "node \<Rightarrow> handle list" where
  "allElements doc = (case doc of Text s \<Rightarrow> [] | Element a kids \<Rightarrow> [] # descendants doc)"

definition getElementById :: "node \<Rightarrow> jsstring \<Rightarrow> handle option" where
  "getElementById doc i = find (matches (\<lambda>a. ident a = i) doc) (allElements doc)"

text \<open>\<open>el.closest(sel)\<close>: the element itself or its nearest ancestor that the selector accepts.\<close>

fun closestRev :: "(attrs \<Rightarrow> bool) \<Rightarrow> node \<Rightarrow> nat list \<Rightarrow> handle option" where
  "closestRev sel doc [] = (if matches sel doc [] then Some [] else None)"
| "closestRev sel doc (i # rp) =
     (if matches sel doc (rev (i # rp)) then Some (rev (i # rp)) else closestRev sel doc rp)"

definition closest :: "(attrs \<Rightarrow> bool) \<Rightarrow> node \<Rightarrow> handle \<Rightarrow> handle option" where
  "closest sel doc p = closestRev sel doc (rev p)"

text \<open>
  The chain \<open>el.nextElementSibling\<close>, \<open>el.nextElementSibling.nextElementSibling\<close>, ...:
  the element siblings after an element, in order.
\<close>

definition nextElementSiblings :: "node \<Rightarrow> handle \<Rightarrow> handle list" where
  "nextElementSiblings doc p =
     (if p = [] then []
      else (case nodeAt doc (butlast p) of
              Some (Element a kids) \<Rightarrow>
                filter (matches (\<lambda>a. True) doc)
                  (map (\<lambda>j. butlast p @ [j]) [Suc (last p) ..< length kids])
            | _ \<Rightarrow> []))"

text \<open>The selectors of the script.\<close>

definition selDiv :: "attrs \<Rightarrow> bool" where
  "selDiv a = (tag a = js ''div'')"

definition selAddControl :: "attrs \<Rightarrow> bool" where
  "selAddControl a = (tag a = js ''span'' \<and> js ''ui-icon-plusthick'' \<in> set (classes a))"

definition selAssignedList :: "attrs \<Rightarrow> bool" where
  "selAssignedList a = (tag a = js ''ul'' \<and> startsWith (ident a) (js ''ul_''))"

definition selLi :: "attrs \<Rightarrow> bool" where
  "selLi a = (tag a = js ''li'')"

definition selCandidate :: "attrs \<Rightarrow> bool" where
  "selCandidate a = (tag a = js ''div'' \<and> startsWith (onclick a) (js ''dodajKorGrupa''))"

definition selUiDialog :: "attrs \<Rightarrow> bool" where
  "selUiDialog a = (js ''ui-dialog'' \<in> set (classes a))"

definition selClose :: "attrs \<Rightarrow> bool" where
  "selClose a = (js ''ui-dialog-titlebar-close'' \<in> set (classes a))"

text \<open>
  \<open>document.querySelector('#editorDialog .ui-dialog-titlebar-close')\<close>: the first element
  with the class that has an ancestor with the id.
\<close>

definition properAncestors :: "handle \<Rightarrow> handle list" where
  "properAncestors p = map (\<lambda>n. take n p) [0 ..< length p]"

definition queryCloseButton :: "node \<Rightarrow> handle option" where
  "queryCloseButton doc =
     find (\<lambda>p. matches selClose doc p \<and>
                list_ex (matches (\<lambda>a. ident a = js ''editorDialog'') doc) (properAncestors p))
       (allElements doc)"

section \<open>Slot locator\<close>

text \<open>The template \<open>`${event.date} ${event.startTime} ${event.endTime} ${event.room}`\<close>.\<close>

definition slotPattern :: "event \<Rightarrow> jsstring" where
  "slotPattern ev = date ev @ js '' '' @ startTime ev @ js '' '' @ endTime ev @ js '' '' @ room ev"

text \<open>The loop of \<open>findMatchingDiv\<close> over the \<open>div\<close>s of the editor.\<close>

fun findInDivs :: "node \<Rightarrow> event \<Rightarrow> handle list \<Rightarrow> handle option" where
  "findInDivs doc ev [] = None"
| "findInDivs doc ev (dv # divs) =
     (let text = textContentAt doc dv; pattern = slotPattern ev in
      if includes' text pattern then
        (case querySelector selAddControl doc dv of
           Some dodajSpan \<Rightarrow> Some dodajSpan
         | None \<Rightarrow> findInDivs doc ev divs)
      else findInDivs doc ev divs)"

definition findMatchingDiv :: "node \<Rightarrow> event \<Rightarrow> handle option" where
  "findMatchingDiv doc ev =
     (case getElementById doc (js ''editor'') of
        None \<Rightarrow> None
      | Some editor \<Rightarrow> findInDivs doc ev (querySelectorAll selDiv doc editor))"

section \<open>Assignment checker\<close>

text \<open>
  The name test that \<open>isPersonAlreadyAssigned\<close> applies to each list entry and
  \<open>findPersonInDialog\<close> to each candidate.
\<close>

definition nameMatches :: "jsstring \<Rightarrow> jsstring \<Rightarrow> bool" where
  "nameMatches text nm =
     (let nameParts = split chSpace nm in
      if length nameParts \<ge> 2 then
        (let lastName = nameParts ! (length nameParts - 1); firstName = nameParts ! 0 in
         includes' text lastName \<and> includes' text firstName)
      else includes' text nm)"

text \<open>The \<open>while (nextDiv)\<close> loop: it stops at the first sibling that holds a list.\<close>

fun walkSiblings :: "node \<Rightarrow> jsstring \<Rightarrow> handle list \<Rightarrow> bool" where
  "walkSiblings doc nm [] = False"
| "walkSiblings doc nm (nextDiv # later) =
     (case querySelector selAssignedList doc nextDiv of
        Some ul \<Rightarrow> list_ex (\<lambda>li. nameMatches (textContentAt doc li) nm) (querySelectorAll selLi doc ul)
      | None \<Rightarrow> walkSiblings doc nm later)"

definition isPersonAlreadyAssigned :: "node \<Rightarrow> handle \<Rightarrow> jsstring \<Rightarrow> bool" where
  "isPersonAlreadyAssigned doc dodajSpan nm =
     (case closest selDiv doc dodajSpan of
        None \<Rightarrow> False
      | Some parentDiv \<Rightarrow> walkSiblings doc nm (nextElementSiblings doc parentDiv))"

definition findPersonInDialog :: "node \<Rightarrow> jsstring \<Rightarrow> handle option" where
  "findPersonInDialog doc nm =
     (case getElementById doc (js ''editorDialog'') of
        None \<Rightarrow> None
      | Some dialog \<Rightarrow>
          find (\<lambda>dv. nameMatches (textContentAt doc dv) nm) (querySelectorAll selCandidate doc dialog))"

section \<open>The host page\<close>

text \<open>
  The host page is outside the script: a state \<open>'h\<close> that the script reads through
  \<open>document\<close> and \<open>Date.now()\<close>, and that changes when the script clicks an
  element (the page's handlers run) and while the script waits for a timer.
\<close>

record 'h surface =
  document :: "'h \<Rightarrow> node"
  click :: "handle \<Rightarrow> 'h \<Rightarrow> 'h"
  elapse :: "int \<Rightarrow> 'h \<Rightarrow> 'h"
  now :: "'h \<Rightarrow> int"

text \<open>What the script has done to the page so far: its clicks and its timers.\<close>

datatype action = Click handle | Timer int

record 'h world =
  surf :: 'h
  trace :: "action list"

definition page :: "'h surface \<Rightarrow> 'h world \<Rightarrow> node" where
  "page S w = document S (surf w)"

definition doClick :: "'h surface \<Rightarrow> handle \<Rightarrow> 'h world \<Rightarrow> 'h world" where
  "doClick S p w = \<lparr>surf = click S p (surf w), trace = trace w @ [Click p]\<rparr>"

text \<open>The script resumes when a timer of \<open>ms\<close> milliseconds fires.\<close>

definition sleep :: "'h surface \<Rightarrow> int \<Rightarrow> 'h world \<Rightarrow> 'h world" where
  "sleep S ms w = \<lparr>surf = elapse S ms (surf w), trace = trace w @ [Timer ms]\<rparr>"

section \<open>Dialog controller\<close>

definition displayAt :: "node \<Rightarrow> handle \<Rightarrow> jsstring" where
  "displayAt doc p = (case nodeAt doc p of Some (Element a kids) \<Rightarrow> display a | _ \<Rightarrow> [])"

text \<open>\<open>dialog && dialog.style.display !== 'none'\<close>, with the dialog.\<close>

definition dialogShown :: "node \<Rightarrow> handle option" where
  "dialogShown doc =
     (case getElementById doc (js ''editorDialog'') of
        None \<Rightarrow> None
      | Some dialog \<Rightarrow> if displayAt doc dialog \<noteq> js ''none'' then Some dialog else None)"

text \<open>
  The interval callback of \<open>waitForDialog\<close>, every 100 ms until the promise settles.
  The second \<open>if\<close> of the callback runs after the first one in any case, but its
  \<open>reject\<close> does nothing to a promise that is resolved. A wait that never settles is
  \<open>None\<close>.
\<close>

partial_function (option) checkDialog ::
  "'h surface \<Rightarrow> int \<Rightarrow> int \<Rightarrow> 'h world \<Rightarrow> ((error + handle) \<times> 'h world) option" where
  "checkDialog S start timeout w =
     (let w' = sleep S 100 w in
      case dialogShown (page S w') of
        Some dialog \<Rightarrow> Some (Inr dialog, w')
      | None \<Rightarrow>
          if now S (surf w') - start > timeout
          then Some (Inl (Error (js ''Dialog timeout'')), w')
          else checkDialog S start timeout w')"

declare checkDialog.simps [code]

definition waitForDialog ::
  "'h surface \<Rightarrow> int \<Rightarrow> 'h world \<Rightarrow> ((error + handle) \<times> 'h world) option" where
  "waitForDialog S timeout w = checkDialog S (now S (surf w)) timeout w"

text \<open>The three tests of \<open>waitForDialogClose\<close> that resolve it.\<close>

definition dialogGone :: "node \<Rightarrow> bool" where
  "dialogGone doc =
     (case getElementById doc (js ''editorDialog'') of
        None \<Rightarrow> True
      | Some dialog \<Rightarrow>
          (case closest selUiDialog doc dialog of
             Some parentDialog \<Rightarrow>
               if displayAt doc parentDialog = js ''none'' then True
               else displayAt doc dialog = js ''none''
           | None \<Rightarrow> displayAt doc dialog = js ''none''))"

partial_function (option) checkDialogClose ::
  "'h surface \<Rightarrow> int \<Rightarrow> int \<Rightarrow> 'h world \<Rightarrow> ((error + unit) \<times> 'h world) option" where
  "checkDialogClose S start timeout w =
     (let w' = sleep S 100 w in
      if dialogGone (page S w') then Some (Inr (), w')
      else if now S (surf w') - start > timeout
      then Some (Inl (Error (js ''Dialog close timeout'')), w')
      else checkDialogClose S start timeout w')"

declare checkDialogClose.simps [code]

definition waitForDialogClose ::
  "'h surface \<Rightarrow> int \<Rightarrow> 'h world \<Rightarrow> ((error + unit) \<times> 'h world) option" where
  "waitForDialogClose S timeout w = checkDialogClose S (now S (surf w)) timeout w"

section \<open>Batch processor\<close>

record report =
  success :: "jsstring list"
  alreadyAssigned :: "jsstring list"
  slotNotFound :: "jsstring list"
  personNotFound :: "jsstring list"
  errors :: "(jsstring \<times> jsstring) list"

definition noResults :: report where
  "noResults = \<lparr>success = [], alreadyAssigned = [], slotNotFound = [], personNotFound = [],
                errors = []\<rparr>"

text \<open>
  The template
  \<open>`${event.date} ${event.startTime}-${event.endTime} ${event.room} - ${event.name}`\<close>.
\<close>

definition eventStr :: "event \<Rightarrow> jsstring" where
  "eventStr ev =
     date ev @ js '' '' @ startTime ev @ js ''-'' @ endTime ev @ js '' '' @ room ev @ js '' - ''
       @ name ev"

text \<open>
  One turn of the loop of \<open>processEvents\<close>: the results and the page after it. The
  \<open>try\<close> block starts after the click; its \<open>catch\<close> takes the rejections of the two
  waits.
\<close>

definition processEvent ::
  "'h surface \<Rightarrow> event \<Rightarrow> report \<times> 'h world \<Rightarrow> (report \<times> 'h world) option" where
  "processEvent S ev st =
     (let results = fst st; w = snd st; str = eventStr ev in
      case findMatchingDiv (page S w) ev of
        None \<Rightarrow> Some (results\<lparr>slotNotFound := slotNotFound results @ [str]\<rparr>, w)
      | Some dodajBtn \<Rightarrow>
          if isPersonAlreadyAssigned (page S w) dodajBtn (name ev) then
            Some (results\<lparr>alreadyAssigned := alreadyAssigned results @ [str]\<rparr>, w)
          else
            (let w1 = doClick S dodajBtn w in
             case waitForDialog S 5000 w1 of
               None \<Rightarrow> None
             | Some (Inl err, w2) \<Rightarrow>
                 Some (results\<lparr>errors := errors results @ [(str, message err)]\<rparr>, w2)
             | Some (Inr dialog, w2) \<Rightarrow>
                 (let w3 = sleep S 300 w2 in
                  case findPersonInDialog (page S w3) (name ev) of
                    None \<Rightarrow>
                      (let results' = results\<lparr>personNotFound := personNotFound results @ [str]\<rparr>;
                           w4 = (case queryCloseButton (page S w3) of
                                   Some closeBtn \<Rightarrow> doClick S closeBtn w3
                                 | None \<Rightarrow> w3);
                           w5 = sleep S 300 w4
                       in Some (results', w5))
                  | Some personDiv \<Rightarrow>
                      (let w4 = doClick S personDiv w3 in
                       case waitForDialogClose S 5000 w4 of
                         None \<Rightarrow> None
                       | Some (Inl err, w5) \<Rightarrow>
                           Some (results\<lparr>errors := errors results @ [(str, message err)]\<rparr>, w5)
                       | Some (Inr u, w5) \<Rightarrow>
                           (let results' = results\<lparr>success := success results @ [str]\<rparr>;
                                w6 = sleep S 500 w5
                            in Some (results', w6))))))"

fun processLoop ::
  "'h surface \<Rightarrow> event list \<Rightarrow> report \<times> 'h world \<Rightarrow> (report \<times> 'h world) option" where
  "processLoop S [] st = Some st"
| "processLoop S (ev # evs) st =
     (case processEvent S ev st of
        None \<Rightarrow> None
      | Some st' \<Rightarrow> processLoop S evs st')"

definition processEvents ::
  "'h surface \<Rightarrow> event list \<Rightarrow> 'h world \<Rightarrow> (report \<times> 'h world) option" where
  "processEvents S events w = processLoop S events (noResults, w)"

section \<open>A host page for the examples\<close>

text \<open>
  A page with one slot (2024-03-10, 09:00 to 10:00, room A1) and the list of the people
  assigned to it. A click on the add control opens the dialog, which shows
  \<open>delay\<close> milliseconds later; a click on a candidate closes it and lists the
  candidate.
\<close>

definition el :: "string \<Rightarrow> node list \<Rightarrow> node" where
  "el t kids = Element \<lparr>tag = js t, ident = [], classes = [], onclick = [], display = []\<rparr> kids"

record pageState =
  clock :: int
  opened :: "int option"
  listed :: "jsstring list"

definition demoShown :: "int \<Rightarrow> pageState \<Rightarrow> bool" where
  "demoShown delay h = (case opened h of None \<Rightarrow> False | Some t \<Rightarrow> t + delay \<le> clock h)"

definition demoDocument :: "int \<Rightarrow> jsstring list \<Rightarrow> pageState \<Rightarrow> node" where
  "demoDocument delay candidates h =
     el ''html''
       [Element \<lparr>tag = js ''div'', ident = js ''editor'', classes = [], onclick = [], display = []\<rparr>
          [el ''div''
             [Text (js ''2024-03-10 09:00 10:00 A1''),
              Element \<lparr>tag = js ''span'', ident = [], classes = [js ''ui-icon'', js ''ui-icon-plusthick''],
                       onclick = [], display = []\<rparr> []],
           el ''div''
             [Element \<lparr>tag = js ''ul'', ident = js ''ul_1'', classes = [], onclick = [], display = []\<rparr>
                (map (\<lambda>t. el ''li'' [Text t]) (listed h))]],
        Element \<lparr>tag = js ''div'', ident = js ''editorDialog'', classes = [], onclick = [],
                 display = (if demoShown delay h then [] else js ''none'')\<rparr>
          (map (\<lambda>c. Element \<lparr>tag = js ''div'', ident = [], classes = [],
                               onclick = js ''dodajKorGrupa(1)'', display = []\<rparr> [Text c])
             candidates)]"

definition demoClick :: "int \<Rightarrow> jsstring list \<Rightarrow> handle \<Rightarrow> pageState \<Rightarrow> pageState" where
  "demoClick delay candidates p h =
     (case nodeAt (demoDocument delay candidates h) p of
        Some (Element a kids) \<Rightarrow>
          if selAddControl a then h\<lparr>opened := Some (clock h)\<rparr>
          else if selCandidate a then
            h\<lparr>opened := None, listed := listed h @ [textContent (Element a kids)]\<rparr>
          else h
      | _ \<Rightarrow> h)"

text \<open>
  Timers fire on time, or, when the tab is throttled, not before \<open>throttle\<close>
  milliseconds have passed.
\<close>

definition demoSurface :: "int \<Rightarrow> int \<Rightarrow> jsstring list \<Rightarrow> pageState surface" where
  "demoSurface throttle delay candidates =
     \<lparr>document = demoDocument delay candidates,
      click = demoClick delay candidates,
      elapse = (\<lambda>ms h. h\<lparr>clock := clock h + max ms throttle\<rparr>),
      now = clock\<rparr>"

definition demoStart :: "pageState world" where
  "demoStart = \<lparr>surf = \<lparr>clock = 0, opened = None, listed = []\<rparr>, trace = []\<rparr>"

definition demoEvent :: event where
  "demoEvent = \<lparr>date = js ''2024-03-10'', startTime = js ''09:00'', endTime = js ''10:00'',
                room = js ''A1'', name = js ''Ivan Horvat''\<rparr>"

text \<open>The page with the given texts in the list of the slot, and no dialog.\<close>

definition listedPage :: "jsstring list \<Rightarrow> node" where
  "listedPage ts = demoDocument 0 [] \<lparr>clock = 0, opened = None, listed = ts\<rparr>"

text \<open>A page whose first slot row has no add control.\<close>

definition staleDocument :: node where
  "staleDocument =
     el ''html''
       [Element \<lparr>tag = js ''div'', ident = js ''editor'', classes = [], onclick = [], display = []\<rparr>
          [el ''div'' [Text (js ''2024-03-10 09:00 10:00 A1 (closed)'')],
           el ''div''
             [Text (js ''2024-03-10 09:00 10:00 A1''),
              Element \<lparr>tag = js ''span'', ident = [], classes = [js ''ui-icon-plusthick''],
                       onclick = [], display = []\<rparr> []]]]"

section \<open>Vocabulary of the batch properties\<close>




text \<open>The clock of the page has moved on when an interval callback runs.\<close>

definition clockAdvances :: "'h surface \<Rightarrow> bool" where
  "clockAdvances S = (\<forall>h. now S h < now S (elapse S 100 h))"

text \<open>The event descriptions of the five sequences of a report.\<close>

definition entries :: "report \<Rightarrow> jsstring list" where
  "entries r = success r @ alreadyAssigned r @ slotNotFound r @ personNotFound r @ map fst (errors r)"

section \<open>Properties of the parser\<close>

lemma headerChar_not_ws: "headerChar c \<Longrightarrow> \<not> isWhiteSpace c"
  unfolding headerChar_def isDigit_def isLetter_def isWhiteSpace_def chDash_def chColon_def chBar_def
  by (auto simp: word_le_nat_alt)

lemma headerChar_not_tab: "headerChar c \<Longrightarrow> c \<noteq> chTab"
  using headerChar_not_ws by (auto simp: isWhiteSpace_def chTab_def)

lemma headerChar_not_nl: "headerChar c \<Longrightarrow> c \<noteq> chNl"
  using headerChar_not_ws by (auto simp: isWhiteSpace_def chNl_def)

lemma isDigit_not_dash: "isDigit c \<Longrightarrow> c \<noteq> chDash"
  by (auto simp: isDigit_def chDash_def)

lemma matchSeq_split: "matchSeq ps s = Some (m, r) \<Longrightarrow> s = m @ r \<and> list_all2 (\<lambda>p c. p c) ps m"
  by (induction ps s arbitrary: m r rule: matchSeq.induct) (auto split: if_splits option.splits)

lemma matchSeq_append: "matchSeq ps s = Some (s, []) \<Longrightarrow> matchSeq ps (s @ r) = Some (s, r)"
  by (induction ps s rule: matchSeq.induct) (auto split: if_splits option.splits)

lemma trimEnd_Nil: "trimEnd [] = []"
  by (simp add: trimEnd_def)

lemma trimEnd_Cons: "trimEnd (c # s) = (if trimEnd s = [] \<and> isWhiteSpace c then [] else c # trimEnd s)"
  by (auto simp: trimEnd_def dropWhile_append)

lemma trim_commute: "trimStart (trimEnd s) = trimEnd (trimStart s)"
  by (induction s) (auto simp: trimEnd_Cons trimEnd_Nil trimStart_def)

lemma trimEnd_idem: "trimEnd (trimEnd s) = trimEnd s"
  by (induction s) (auto simp: trimEnd_Cons trimEnd_Nil)

lemma trim_trimEnd: "trim (trimEnd s) = trim s"
  by (simp add: trim_def trim_commute trimEnd_idem)

lemma split_no_sep: "sep \<notin> set s \<Longrightarrow> split sep s = [s]"
  by (induction s) auto

lemma split_append: "sep \<notin> set a \<Longrightarrow> split sep (a @ sep # b) = a # split sep b"
  by (induction a) auto

lemma isDate_chars: "isDate d \<Longrightarrow> (\<forall>c\<in>set d. headerChar c) \<and> d \<noteq> []"
  unfolding isDate_def
  by (drule matchSeq_split) (auto simp: datePattern_def list_all2_Cons1 headerChar_def)

lemma isTime_chars: "isTime d \<Longrightarrow> (\<forall>c\<in>set d. headerChar c)"
  unfolding isTime_def
  by (drule matchSeq_split) (auto simp: timePattern_def list_all2_Cons1 headerChar_def)

lemma matchRoom_A:
  assumes "ds \<noteq> []" "\<forall>x\<in>set ds. isDigit x" "dsh = [] \<or> dsh = [chDash]"
  shows "matchRoom (chA # dsh @ ds) = Some (chA # dsh @ ds)"
proof -
  have tw: "takeWhile isDigit ds = ds" using assms(2) by (simp add: takeWhile_eq_all_conv)
  obtain x xs where ds: "ds = x # xs" using assms(1) by (cases ds) auto
  have "x \<noteq> chDash" using assms(2) ds isDigit_not_dash by auto
  then show ?thesis using assms(3) tw ds by (auto simp: matchRoom_def)
qed

lemma matchRoom_notA: "c \<noteq> chA \<Longrightarrow> matchRoom (c # r) = None"
  by (simp add: matchRoom_def)

lemma headerMatch_slotHeader:
  assumes "isDate d" "isTime s" "isTime e"
  shows "headerMatch (slotHeader d s e rm) = map_option (\<lambda>r. (d, s, e, r)) (matchRoom rm)"
proof -
  have 1: "matchSeq datePattern (d @ r) = Some (d, r)" for r
    using assms(1) by (simp add: isDate_def matchSeq_append)
  have 2: "matchSeq timePattern (s @ r) = Some (s, r)" for r
    using assms(2) by (simp add: isTime_def matchSeq_append)
  have 3: "matchSeq timePattern (e @ r) = Some (e, r)" for r
    using assms(3) by (simp add: isTime_def matchSeq_append)
  show ?thesis
    unfolding headerMatch_def slotHeader_def
    by (simp add: 1 2 3 split: option.splits)
qed

lemma headerMatch_datePrefixed: "headerMatch s \<noteq> None \<Longrightarrow> datePrefixed s"
  by (auto simp: headerMatch_def datePrefixed_def split: option.splits)

lemma replace_absent: "c \<notin> set s \<Longrightarrow> replace c r s = s"
  by (induction s) auto

lemma room_replace:
  assumes "\<forall>x\<in>set ds. isDigit x" "dsh = [] \<or> dsh = [chDash]"
  shows "replace chDash [] (chA # dsh @ ds) = chA # ds"
proof -
  have "chDash \<notin> set ds" using assms(1) isDigit_not_dash by auto
  then have "replace chDash [] ds = ds" by (rule replace_absent)
  moreover have "chA \<noteq> chDash" by (simp add: chA_def chDash_def)
  ultimately show ?thesis using assms(2) by auto
qed

lemma pe_end: "\<not> i < length es \<Longrightarrow> parseEntries es i acc = Inr acc"
  by (simp add: parseEntries.simps)

lemma pe_skip: "i < length es \<Longrightarrow> headerMatch (trim (es ! i)) = None \<Longrightarrow> parseEntries es i acc = parseEntries es (Suc i) acc"
  by (subst parseEntries.simps) (simp add: at_def)

lemma pe_last: "i < length es \<Longrightarrow> \<not> Suc i < length es \<Longrightarrow> parseEntries es i acc = Inr acc"
  by (subst parseEntries.simps) (simp add: at_def pe_end)

lemma pe_bad_name: "Suc i < length es \<Longrightarrow> trim (es ! Suc i) = [] \<or> datePrefixed (trim (es ! Suc i)) \<Longrightarrow> parseEntries es i acc = parseEntries es (Suc i) acc"
  by (subst parseEntries.simps) (auto simp add: at_def Let_def)

lemma pe_emit: "Suc i < length es \<Longrightarrow> headerMatch (trim (es ! i)) = Some (d, s, e, r) \<Longrightarrow> trim (es ! Suc i) \<noteq> [] \<Longrightarrow> \<not> datePrefixed (trim (es ! Suc i)) \<Longrightarrow>
   parseEntries es i acc = parseEntries es (Suc (Suc i)) (acc @ [\<lparr>date = d, startTime = s, endTime = e, room = replace chDash [] r, name = trim (es ! Suc i)\<rparr>])"
  by (subst parseEntries.simps) (auto simp add: at_def Let_def)

lemma pe_total: "\<exists>evs. parseEntries es i acc = Inr evs"
proof (induction es i acc rule: parseEntries.induct)
  case (1 entries i events)
  show ?case
    apply (subst parseEntries.simps)
    using 1 apply (auto simp: at_def Let_def split: option.splits)
    done
qed

lemma pl_total: "\<exists>evs. parseLines ls acc = Inr evs"
proof (induction ls arbitrary: acc)
  case Nil show ?case by simp
next
  case (Cons l ls)
  obtain evs where "parseEntries (filter (\<lambda>e. trim e \<noteq> []) (split chTab l)) 0 acc = Inr evs"
    using pe_total by blast
  with Cons show ?case by simp
qed

lemma trimEnd_append: "trimEnd b \<noteq> [] \<Longrightarrow> trimEnd (a @ b) = a @ trimEnd b"
  by (induction a) (auto simp: trimEnd_Cons)

lemma trim_no_ws: "\<forall>c\<in>set s. \<not> isWhiteSpace c \<Longrightarrow> trim s = s"
proof -
  assume a: "\<forall>c\<in>set s. \<not> isWhiteSpace c"
  have d: "dropWhile isWhiteSpace t = t" if "\<forall>c\<in>set t. \<not> isWhiteSpace c" for t
    using that by (cases t) auto
  show ?thesis using a by (simp add: trim_def trimStart_def trimEnd_def d)
qed

lemma set_trimEnd: "set (trimEnd s) \<subseteq> set s"
  by (auto simp: trimEnd_def dest: set_dropWhileD)

lemma trimEnd_nonempty: "trim s \<noteq> [] \<Longrightarrow> trimEnd s \<noteq> []"
proof -
  assume a: "trim s \<noteq> []"
  have "trim s = trimStart (trimEnd s)" by (simp add: trim_def trim_commute)
  with a show ?thesis by (auto simp: trimStart_def)
qed

lemma parse_one_line:
  assumes h: "\<forall>c\<in>set h. headerChar c" "h \<noteq> []"
    and nm: "chTab \<notin> set nm" "chNl \<notin> set nm" "trim nm \<noteq> []"
  shows "parseSchedule (h @ chTab # nm) = parseEntries [h, trimEnd nm] 0 []"
proof -
  let ?L = "h @ chTab # trimEnd nm"
  have te: "trimEnd nm \<noteq> []" using nm(3) by (rule trimEnd_nonempty)
  have hd: "\<not> isWhiteSpace (hd h)" using h headerChar_not_ws by (cases h) auto
  have ts: "trimStart (h @ chTab # x) = h @ chTab # x" for x
    using h(2) hd by (cases h) (auto simp: trimStart_def)
  have "trimEnd ((h @ [chTab]) @ nm) = (h @ [chTab]) @ trimEnd nm"
    using te by (rule trimEnd_append)
  then have tr: "trim (h @ chTab # nm) = ?L" by (simp add: trim_def ts)
  have "trimEnd ((h @ [chTab]) @ trimEnd nm) = (h @ [chTab]) @ trimEnd (trimEnd nm)"
    using te by (intro trimEnd_append) (simp add: trimEnd_idem)
  then have trL: "trim ?L = ?L" by (simp add: trim_def ts trimEnd_idem)
  have nonl: "chNl \<notin> set ?L"
    using h(1) headerChar_not_nl nm(2) set_trimEnd [of nm] by (auto simp: chNl_def chTab_def)
  have notab: "chTab \<notin> set h" using h(1) headerChar_not_tab by auto
  have notab': "chTab \<notin> set (trimEnd nm)" using nm(1) set_trimEnd [of nm] by auto
  have sp: "split chTab ?L = [h, trimEnd nm]"
    using notab notab' by (simp add: split_append split_no_sep)
  have th: "trim h = h" using h(1) headerChar_not_ws by (intro trim_no_ws) auto
  have fl: "filter (\<lambda>e. trim e \<noteq> []) [h, trimEnd nm] = [h, trimEnd nm]"
    using th h(2) nm(3) by (simp add: trim_trimEnd)
  obtain evs where evs: "parseEntries [h, trimEnd nm] 0 [] = Inr evs"
    using pe_total by blast
  have "split chNl ?L = [?L]" using nonl by (rule split_no_sep)
  then have "parseSchedule (h @ chTab # nm) = parseLines [?L] []"
    unfolding parseSchedule_def tr by simp
  also have "\<dots> = Inr evs"
    using trL te evs by (simp add: sp fl del: filter.simps)
  finally show ?thesis using evs by simp
qed

lemma slotHeader_chars:
  assumes "isDate d" "isTime s" "isTime e" "\<forall>c\<in>set rm. headerChar c"
  shows "(\<forall>c\<in>set (slotHeader d s e rm). headerChar c) \<and> slotHeader d s e rm \<noteq> []"
  using isDate_chars [OF assms(1)] isTime_chars [OF assms(2)] isTime_chars [OF assms(3)] assms(4)
  by (auto simp: slotHeader_def headerChar_def)

lemma line_emits:
  assumes "\<forall>c\<in>set h. headerChar c" "h \<noteq> []" "headerMatch h = Some (d, s, e, r)"
    and "chTab \<notin> set nm" "chNl \<notin> set nm" "trim nm \<noteq> []" "\<not> datePrefixed (trim nm)"
  shows "parseSchedule (h @ chTab # nm) =
           Inr [\<lparr>date = d, startTime = s, endTime = e, room = replace chDash [] r, name = trim nm\<rparr>]"
proof -
  have th: "trim h = h" using assms(1) headerChar_not_ws by (intro trim_no_ws) auto
  have "parseEntries [h, trimEnd nm] 0 [] =
          parseEntries [h, trimEnd nm] (Suc (Suc 0))
            ([] @ [\<lparr>date = d, startTime = s, endTime = e, room = replace chDash [] r,
                     name = trim ([h, trimEnd nm] ! Suc 0)\<rparr>])"
    using assms(3,6,7) th by (intro pe_emit) (simp_all add: trim_trimEnd)
  then show ?thesis
    using assms by (simp add: parse_one_line pe_end trim_trimEnd)
qed

lemma line_skips:
  assumes "\<forall>c\<in>set h. headerChar c" "h \<noteq> []" "headerMatch h = None"
    and "chTab \<notin> set nm" "chNl \<notin> set nm" "trim nm \<noteq> []"
  shows "parseSchedule (h @ chTab # nm) = Inr []"
proof -
  have th: "trim h = h" using assms(1) headerChar_not_ws by (intro trim_no_ws) auto
  have "parseEntries [h, trimEnd nm] 0 [] = parseEntries [h, trimEnd nm] (Suc 0) []"
    using assms(3) th by (intro pe_skip) simp_all
  also have "\<dots> = Inr []" by (intro pe_last) simp_all
  finally show ?thesis using assms by (simp add: parse_one_line)
qed

lemma isDigit_headerChar: "isDigit c \<Longrightarrow> headerChar c" by (simp add: headerChar_def)

lemma isLetter_headerChar: "isLetter c \<Longrightarrow> headerChar c" by (simp add: headerChar_def)

lemma room_chars:
  assumes "isLetter c" "\<forall>x\<in>set ds. isDigit x" "dsh = [] \<or> dsh = [chDash]"
  shows "\<forall>x\<in>set (c # dsh @ ds). headerChar x"
  using assms by (auto simp: headerChar_def)

lemma chA_letter: "isLetter chA" by (simp add: isLetter_def chA_def)

lemma trim_cell: "h \<noteq> [] \<Longrightarrow> \<not> isWhiteSpace (hd h) \<Longrightarrow> \<not> isWhiteSpace (last h) \<Longrightarrow> trim h = h"
proof -
  assume a: "h \<noteq> []" "\<not> isWhiteSpace (hd h)" "\<not> isWhiteSpace (last h)"
  have 1: "trimStart h = h" using a(1,2) by (cases h) (auto simp: trimStart_def)
  have "dropWhile isWhiteSpace (rev h) = rev h"
    using a(1,3) by (cases "rev h") (auto simp: last_rev [symmetric] hd_rev)
  then have "trimEnd h = h" by (simp add: trimEnd_def)
  then show ?thesis using 1 by (simp add: trim_def)
qed

lemma parse_cell_line:
  assumes h: "h \<noteq> []" "\<not> isWhiteSpace (hd h)" "\<not> isWhiteSpace (last h)"
      "chTab \<notin> set h" "chNl \<notin> set h"
    and nm: "chTab \<notin> set nm" "chNl \<notin> set nm" "trim nm \<noteq> []"
  shows "parseSchedule (h @ chTab # nm) = parseEntries [h, trimEnd nm] 0 []"
proof -
  let ?L = "h @ chTab # trimEnd nm"
  have te: "trimEnd nm \<noteq> []" using nm(3) by (rule trimEnd_nonempty)
  have ts: "trimStart (h @ chTab # x) = h @ chTab # x" for x
    using h(1,2) by (cases h) (auto simp: trimStart_def)
  have "trimEnd ((h @ [chTab]) @ nm) = (h @ [chTab]) @ trimEnd nm"
    using te by (rule trimEnd_append)
  then have tr: "trim (h @ chTab # nm) = ?L" by (simp add: trim_def ts)
  have "trimEnd ((h @ [chTab]) @ trimEnd nm) = (h @ [chTab]) @ trimEnd (trimEnd nm)"
    using te by (intro trimEnd_append) (simp add: trimEnd_idem)
  then have trL: "trim ?L = ?L" by (simp add: trim_def ts trimEnd_idem)
  have nonl: "chNl \<notin> set ?L"
    using h(5) nm(2) set_trimEnd [of nm] by (auto simp: chNl_def chTab_def)
  have notab': "chTab \<notin> set (trimEnd nm)" using nm(1) set_trimEnd [of nm] by auto
  have sp: "split chTab ?L = [h, trimEnd nm]"
    using h(4) notab' by (simp add: split_append split_no_sep)
  have th: "trim h = h" using h(1-3) by (rule trim_cell)
  have fl: "filter (\<lambda>e. trim e \<noteq> []) [h, trimEnd nm] = [h, trimEnd nm]"
    using th h(1) nm(3) by (simp add: trim_trimEnd)
  obtain evs where evs: "parseEntries [h, trimEnd nm] 0 [] = Inr evs"
    using pe_total by blast
  have "split chNl ?L = [?L]" using nonl by (rule split_no_sep)
  then have "parseSchedule (h @ chTab # nm) = parseLines [?L] []"
    unfolding parseSchedule_def tr by simp
  also have "\<dots> = Inr evs"
    using trL te evs by (simp add: sp fl del: filter.simps)
  finally show ?thesis using evs by simp
qed

lemma cell_emits:
  assumes "h \<noteq> []" "\<not> isWhiteSpace (hd h)" "\<not> isWhiteSpace (last h)"
      "chTab \<notin> set h" "chNl \<notin> set h" "headerMatch h = Some (d, s, e, r)"
    and "chTab \<notin> set nm" "chNl \<notin> set nm" "trim nm \<noteq> []" "\<not> datePrefixed (trim nm)"
  shows "parseSchedule (h @ chTab # nm) =
           Inr [\<lparr>date = d, startTime = s, endTime = e, room = replace chDash [] r, name = trim nm\<rparr>]"
proof -
  have th: "trim h = h" using assms(1-3) by (rule trim_cell)
  have "parseEntries [h, trimEnd nm] 0 [] =
          parseEntries [h, trimEnd nm] (Suc (Suc 0))
            ([] @ [\<lparr>date = d, startTime = s, endTime = e, room = replace chDash [] r,
                     name = trim ([h, trimEnd nm] ! Suc 0)\<rparr>])"
    using assms(6,9,10) th by (intro pe_emit) (simp_all add: trim_trimEnd)
  then show ?thesis
    using parse_cell_line [OF assms(1-5,7-9)] by (simp add: pe_end trim_trimEnd)
qed

lemma cell_skips:
  assumes "h \<noteq> []" "\<not> isWhiteSpace (hd h)" "\<not> isWhiteSpace (last h)"
      "chTab \<notin> set h" "chNl \<notin> set h" "headerMatch h = None"
    and "chTab \<notin> set nm" "chNl \<notin> set nm" "trim nm \<noteq> []"
  shows "parseSchedule (h @ chTab # nm) = Inr []"
proof -
  have th: "trim h = h" using assms(1-3) by (rule trim_cell)
  have "parseEntries [h, trimEnd nm] 0 [] = parseEntries [h, trimEnd nm] (Suc 0) []"
    using assms(6) th by (intro pe_skip) simp_all
  also have "\<dots> = Inr []" by (intro pe_last) simp_all
  finally show ?thesis using parse_cell_line [OF assms(1-5,7-9)] by simp
qed

lemma slotHeader_append: "slotHeader d s e rm @ rest = slotHeader d s e (rm @ rest)"
  by (simp add: slotHeader_def)

lemma takeWhile_run:
  assumes "\<forall>x\<in>set ds. isDigit x" "rest = [] \<or> \<not> isDigit (hd rest)"
  shows "takeWhile isDigit (ds @ rest) = ds"
  using assms by (cases rest) (auto simp: takeWhile_append takeWhile_eq_all_conv)

lemma matchRoom_rest:
  assumes "ds \<noteq> []" "\<forall>x\<in>set ds. isDigit x" "dsh = [] \<or> dsh = [chDash]"
    and "rest = [] \<or> \<not> isDigit (hd rest)"
  shows "matchRoom (chA # dsh @ ds @ rest) = Some (chA # dsh @ ds)"
proof -
  have tw: "takeWhile isDigit (ds @ rest) = ds" using assms(2,4) by (rule takeWhile_run)
  obtain x xs where ds: "ds = x # xs" using assms(1) by (cases ds) auto
  have "x \<noteq> chDash" using assms(2) ds isDigit_not_dash by auto
  then show ?thesis using assms(1,3) tw ds by (auto simp: matchRoom_def)
qed

lemma matchRoom_parts:
  assumes "matchRoom t = Some rm"
  shows "\<exists>dsh ds rest. (dsh = [] \<or> dsh = [chDash]) \<and> ds \<noteq> [] \<and> list_all isDigit ds \<and>
           (rest = [] \<or> \<not> isDigit (hd rest)) \<and> rm = chA # dsh @ ds \<and> t = rm @ rest"
proof -
  have la: "list_all isDigit (takeWhile isDigit u)" for u
    by (auto simp: list_all_iff dest: set_takeWhileD)
  have dr: "dropWhile isDigit u = [] \<or> \<not> isDigit (hd (dropWhile isDigit u))" for u
    using hd_dropWhile [of isDigit u] by blast
  obtain r where t: "t = chA # r" using assms by (auto simp: matchRoom_def split: list.splits if_splits)
  show ?thesis
  proof (cases "r \<noteq> [] \<and> hd r = chDash")
    case True
    then obtain xs where r: "r = chDash # xs" by (cases r) auto
    then have "takeWhile isDigit xs \<noteq> []" "rm = chA # [chDash] @ takeWhile isDigit xs"
      using assms t by (auto simp: matchRoom_def Let_def split: if_splits)
    then show ?thesis
      using la [of xs] dr [of xs] t r
      by (intro exI [of _ "[chDash]"] exI [of _ "takeWhile isDigit xs"] exI [of _ "dropWhile isDigit xs"]) simp
  next
    case False
    then have "takeWhile isDigit r \<noteq> []" "rm = chA # [] @ takeWhile isDigit r"
      using assms t by (cases r; auto simp: matchRoom_def Let_def split: if_splits)+
    then show ?thesis
      using la [of r] dr [of r] t
      by (intro exI [of _ "[]"] exI [of _ "takeWhile isDigit r"] exI [of _ "dropWhile isDigit r"]) simp
  qed
qed

lemma matchSeq_exact: "matchSeq ps s = Some (m, r) \<Longrightarrow> matchSeq ps m = Some (m, [])"
  by (induction ps s arbitrary: m r rule: matchSeq.induct) (auto split: if_splits option.splits)

lemma matchSeq_bar: "matchSeq [\<lambda>c. c = chBar] s = Some (m, r) \<Longrightarrow> s = chBar # r"
  by (cases s) (auto split: if_splits)

lemma headerMatch_parts:
  assumes "headerMatch t = Some (d, s, e, rm)"
  shows "isDate d \<and> isTime s \<and> isTime e \<and> (\<exists>rest. matchRoom (rm @ rest) = Some rm \<and> t = slotHeader d s e rm @ rest)"
proof -
  from assms obtain r1 x2 r2 r3 x4 r4 r5 x6 r6 where
    1: "matchSeq datePattern t = Some (d, r1)" and 2: "matchSeq [\<lambda>c. c = chBar] r1 = Some (x2, r2)"
    and 3: "matchSeq timePattern r2 = Some (s, r3)" and 4: "matchSeq [\<lambda>c. c = chBar] r3 = Some (x4, r4)"
    and 5: "matchSeq timePattern r4 = Some (e, r5)" and 6: "matchSeq [\<lambda>c. c = chBar] r5 = Some (x6, r6)"
    and 7: "matchRoom r6 = Some rm"
    by (auto simp: headerMatch_def split: option.splits)
  obtain dsh ds rest where rm: "r6 = rm @ rest"
    using matchRoom_parts [OF 7] by blast
  have "t = d @ r1" "r2 = s @ r3" "r4 = e @ r5"
    using matchSeq_split [OF 1] matchSeq_split [OF 3] matchSeq_split [OF 5] by simp_all
  then have "t = slotHeader d s e rm @ rest"
    using matchSeq_bar [OF 2] matchSeq_bar [OF 4] matchSeq_bar [OF 6] rm by (simp add: slotHeader_def)
  moreover have "matchRoom (rm @ rest) = Some rm" using 7 rm by simp
  ultimately show ?thesis
    using matchSeq_exact [OF 1] matchSeq_exact [OF 3] matchSeq_exact [OF 5]
    by (auto simp: isDate_def isTime_def)
qed

lemma headerMatch_iff:
  "(headerMatch t = Some (d, s, e, rm)) =
     (isDate d \<and> isTime s \<and> isTime e \<and>
      (\<exists>dsh ds rest. (dsh = [] \<or> dsh = [chDash]) \<and> ds \<noteq> [] \<and> list_all isDigit ds \<and>
          (rest = [] \<or> \<not> isDigit (hd rest)) \<and> rm = chA # dsh @ ds \<and>
          t = slotHeader d s e rm @ rest))"
proof
  assume a: "headerMatch t = Some (d, s, e, rm)"
  obtain rest where r: "matchRoom (rm @ rest) = Some rm" "t = slotHeader d s e rm @ rest"
    and dt: "isDate d" "isTime s" "isTime e"
    using headerMatch_parts [OF a] by blast
  obtain dsh ds rest' where p: "dsh = [] \<or> dsh = [chDash]" "ds \<noteq> []" "list_all isDigit ds"
      "rest' = [] \<or> \<not> isDigit (hd rest')" "rm = chA # dsh @ ds" "rm @ rest = rm @ rest'"
    using matchRoom_parts [OF r(1)] by blast
  then have "rest' = rest" by simp
  then show "isDate d \<and> isTime s \<and> isTime e \<and>
      (\<exists>dsh ds rest. (dsh = [] \<or> dsh = [chDash]) \<and> ds \<noteq> [] \<and> list_all isDigit ds \<and>
          (rest = [] \<or> \<not> isDigit (hd rest)) \<and> rm = chA # dsh @ ds \<and>
          t = slotHeader d s e rm @ rest)"
    using dt p r(2) by blast
next
  assume "isDate d \<and> isTime s \<and> isTime e \<and>
      (\<exists>dsh ds rest. (dsh = [] \<or> dsh = [chDash]) \<and> ds \<noteq> [] \<and> list_all isDigit ds \<and>
          (rest = [] \<or> \<not> isDigit (hd rest)) \<and> rm = chA # dsh @ ds \<and>
          t = slotHeader d s e rm @ rest)"
  then obtain dsh ds rest where dt: "isDate d" "isTime s" "isTime e"
    and p: "dsh = [] \<or> dsh = [chDash]" "ds \<noteq> []" "list_all isDigit ds"
      "rest = [] \<or> \<not> isDigit (hd rest)" "rm = chA # dsh @ ds" "t = slotHeader d s e rm @ rest"
    by blast
  have "matchRoom (chA # dsh @ ds @ rest) = Some (chA # dsh @ ds)"
    using p(2) p(3) p(1) p(4) by (intro matchRoom_rest) (simp_all add: list_all_iff)
  then show "headerMatch t = Some (d, s, e, rm)"
    using dt p(5,6) by (simp add: slotHeader_append headerMatch_slotHeader)
qed

text \<open>
  Claim C5, as stated, fails for a line whose room code starts with another letter than
  A: the line \<open>2024-03-10|09:00|10:00|C-12<tab>Ana Anic\<close> yields no event.
\<close>

theorem well_formed_line_counterexample:
  "isDate (js ''2024-03-10'') \<and> isTime (js ''09:00'') \<and> isTime (js ''10:00'') \<and>
   isLetter 0x43 \<and> list_all isDigit (js ''12'') \<and>
   parseSchedule (slotHeader (js ''2024-03-10'') (js ''09:00'') (js ''10:00'') (0x43 # chDash # js ''12'')
       @ chTab # js ''Ana Anic'') = Inr []"
  by code_simp

text \<open>
  Claim C5, amended. A line made of a slot header \<open>date|start|end|room\<close> whose room is
  the capital letter A, a dash or none, and digits, then a tab and a name cell (not
  blank, without tab or newline, not starting with a date) parses to exactly one event:
  its date and times are the header's, its room is the room code without the dash, and
  its name is the name cell, trimmed as every cell is.
\<close>

theorem parse_well_formed_line:
  assumes "isDate d" "isTime s" "isTime e"
    and "ds \<noteq> []" "\<forall>x\<in>set ds. isDigit x" "dsh = [] \<or> dsh = [chDash]"
    and "chTab \<notin> set nm" "chNl \<notin> set nm" "trim nm \<noteq> []" "\<not> datePrefixed (trim nm)"
  shows "parseSchedule (slotHeader d s e (chA # dsh @ ds) @ chTab # nm) =
           Inr [\<lparr>date = d, startTime = s, endTime = e, room = chA # ds, name = trim nm\<rparr>]"
proof -
  let ?rm = "chA # dsh @ ds"
  have ch: "(\<forall>c\<in>set (slotHeader d s e ?rm). headerChar c) \<and> slotHeader d s e ?rm \<noteq> []"
    using assms(1-3) room_chars [OF chA_letter assms(5,6)] by (rule slotHeader_chars)
  have hm: "headerMatch (slotHeader d s e ?rm) = Some (d, s, e, ?rm)"
    using assms(1-6) by (simp add: headerMatch_slotHeader matchRoom_A)
  have "replace chDash [] ?rm = chA # ds" using assms(5,6) by (rule room_replace)
  then show ?thesis
    using line_emits [of "slotHeader d s e ?rm" d s e ?rm nm] ch hm assms(7-10) by simp
qed

text \<open>The line \<open>2024-03-10|09:00|10:00|A-101<tab>Ana Anic\<close>.\<close>

theorem parse_well_formed_line_witness:
  "parseSchedule (js ''2024-03-10|09:00|10:00|A-101'' @ chTab # js ''Ana Anic'') =
     Inr [\<lparr>date = js ''2024-03-10'', startTime = js ''09:00'', endTime = js ''10:00'',
           room = js ''A101'', name = js ''Ana Anic''\<rparr>]"
  using parse_well_formed_line [of "js ''2024-03-10''" "js ''09:00''" "js ''10:00''" "js ''101''"
      "[chDash]" "js ''Ana Anic''"]
  by (simp add: js_def slotHeader_def isDate_def isTime_def datePattern_def timePattern_def
      isDigit_def chDash_def chTab_def chNl_def chA_def chBar_def chColon_def trim_def trimStart_def trimEnd_def
      isWhiteSpace_def datePrefixed_def)

text \<open>
  Claim C3, as stated, fails: a header whose room code starts with B is not recognised,
  and the line yields no event.
\<close>

theorem room_letter_counterexample:
  "parseSchedule (js ''2024-03-10|09:00|10:00|B101'' @ chTab # js ''Ana Anic'') = Inr []"
  by code_simp

text \<open>
  Claim C3, amended. A token is recognised as a slot header exactly when it starts with
  \<open>date|HH:MM|HH:MM|room\<close> where the room code is the capital letter A, a dash or
  none, and one or more digits; the room is taken up to the last digit of that run, and
  text after it is ignored. So a cell of that shape with a letter for A, with or
  without text after the digits, is a header only when the letter is the capital A;
  followed by a name cell it yields one event when the letter is A and none otherwise.
\<close>

theorem parse_room_letter:
  "(headerMatch t = Some (d', s', e', rm)) =
     (isDate d' \<and> isTime s' \<and> isTime e' \<and>
      (\<exists>dsh ds rest. (dsh = [] \<or> dsh = [chDash]) \<and> ds \<noteq> [] \<and> list_all isDigit ds \<and>
          (rest = [] \<or> \<not> isDigit (hd rest)) \<and> rm = chA # dsh @ ds \<and>
          t = slotHeader d' s' e' rm @ rest)) \<and>
   (isDate d \<and> isTime s \<and> isTime e \<and> isLetter c \<and>
    (dsh = [] \<or> dsh = [chDash]) \<and> ds \<noteq> [] \<and> list_all isDigit ds \<and>
    (rest = [] \<or> \<not> isDigit (hd rest) \<and> \<not> isWhiteSpace (last rest)) \<and>
    chTab \<notin> set rest \<and> chNl \<notin> set rest \<and>
    chTab \<notin> set nm \<and> chNl \<notin> set nm \<and> trim nm \<noteq> [] \<and> \<not> datePrefixed (trim nm)
    \<longrightarrow>
    (headerMatch (slotHeader d s e (c # dsh @ ds) @ rest) \<noteq> None) = (c = chA) \<and>
    parseSchedule (slotHeader d s e (c # dsh @ ds) @ rest @ chTab # nm) =
      Inr (if c = chA
           then [\<lparr>date = d, startTime = s, endTime = e, room = chA # ds, name = trim nm\<rparr>]
           else []))"
proof (intro conjI impI)
  show "(headerMatch t = Some (d', s', e', rm)) =
     (isDate d' \<and> isTime s' \<and> isTime e' \<and>
      (\<exists>dsh ds rest. (dsh = [] \<or> dsh = [chDash]) \<and> ds \<noteq> [] \<and> list_all isDigit ds \<and>
          (rest = [] \<or> \<not> isDigit (hd rest)) \<and> rm = chA # dsh @ ds \<and>
          t = slotHeader d' s' e' rm @ rest))"
    by (rule headerMatch_iff)
next
  assume a: "isDate d \<and> isTime s \<and> isTime e \<and> isLetter c \<and>
    (dsh = [] \<or> dsh = [chDash]) \<and> ds \<noteq> [] \<and> list_all isDigit ds \<and>
    (rest = [] \<or> \<not> isDigit (hd rest) \<and> \<not> isWhiteSpace (last rest)) \<and>
    chTab \<notin> set rest \<and> chNl \<notin> set rest \<and>
    chTab \<notin> set nm \<and> chNl \<notin> set nm \<and> trim nm \<noteq> [] \<and> \<not> datePrefixed (trim nm)"
  let ?rm = "c # dsh @ ds"
  let ?h = "slotHeader d s e ?rm @ rest"
  have dig: "\<forall>x\<in>set ds. isDigit x" using a by (simp add: list_all_iff)
  have dsh: "dsh = [] \<or> dsh = [chDash]" using a by simp
  have ch: "(\<forall>x\<in>set (slotHeader d s e ?rm). headerChar x) \<and> slotHeader d s e ?rm \<noteq> []"
    using a room_chars [OF _ dig dsh, of c] by (intro slotHeader_chars) simp_all
  have d0: "d \<noteq> []" using a isDate_chars by blast
  have h1: "?h \<noteq> []" using ch by simp
  have "hd ?h = hd (slotHeader d s e ?rm)" using ch by simp
  then have h2: "\<not> isWhiteSpace (hd ?h)"
    using ch headerChar_not_ws by (metis hd_in_set)
  have "last (slotHeader d s e ?rm) \<in> set (slotHeader d s e ?rm)" using ch by simp
  then have "\<not> isWhiteSpace (last (slotHeader d s e ?rm))" using ch headerChar_not_ws by blast
  then have h3: "\<not> isWhiteSpace (last ?h)" using a by (cases "rest = []") simp_all
  have h4: "chTab \<notin> set ?h" using ch headerChar_not_tab a by auto
  have h5: "chNl \<notin> set ?h" using ch headerChar_not_nl a by auto
  have nm: "chTab \<notin> set nm" "chNl \<notin> set nm" "trim nm \<noteq> []" "\<not> datePrefixed (trim nm)"
    using a by simp_all
  have eq: "slotHeader d s e ?rm @ rest @ chTab # nm = ?h @ chTab # nm" by simp
  show "(headerMatch ?h \<noteq> None) = (c = chA)"
  proof (cases "c = chA")
    case True
    have "headerMatch ?h = Some (d, s, e, chA # dsh @ ds)"
      unfolding headerMatch_iff using a True by blast
    then show ?thesis using True by simp
  next
    case False
    have "headerMatch ?h = None"
      using a False by (simp add: slotHeader_append headerMatch_slotHeader matchRoom_notA)
    then show ?thesis using False by simp
  qed
  show "parseSchedule (slotHeader d s e ?rm @ rest @ chTab # nm) =
      Inr (if c = chA
           then [\<lparr>date = d, startTime = s, endTime = e, room = chA # ds, name = trim nm\<rparr>]
           else [])"
  proof (cases "c = chA")
    case True
    have hm: "headerMatch ?h = Some (d, s, e, chA # dsh @ ds)"
      unfolding headerMatch_iff using a True by blast
    have "replace chDash [] (chA # dsh @ ds) = chA # ds" using dig dsh by (rule room_replace)
    then show ?thesis
      unfolding eq using True cell_emits [OF h1 h2 h3 h4 h5 hm nm] by simp
  next
    case False
    have hm: "headerMatch ?h = None"
      using a False by (simp add: slotHeader_append headerMatch_slotHeader matchRoom_notA)
    show ?thesis
      unfolding eq using False cell_skips [OF h1 h2 h3 h4 h5 hm nm(1-3)] by simp
  qed
qed

text \<open>The cells \<open>2024-03-10|09:00|10:00|A-12 (lab)\<close> and \<open>2024-03-10|09:00|10:00|b-7\<close>.\<close>

theorem parse_room_letter_witness:
  "parseSchedule (js ''2024-03-10|09:00|10:00|A-12 (lab)'' @ chTab # js ''Ana Anic'') =
     Inr [\<lparr>date = js ''2024-03-10'', startTime = js ''09:00'', endTime = js ''10:00'',
           room = js ''A12'', name = js ''Ana Anic''\<rparr>] \<and>
   parseSchedule (js ''2024-03-10|09:00|10:00|b-7'' @ chTab # js ''Ana Anic'') = Inr []"
  using parse_room_letter [of "[]" "[]" "[]" "[]" "[]" "js ''2024-03-10''" "js ''09:00''" "js ''10:00''"
      chA "[chDash]" "js ''12''" "js '' (lab)''" "js ''Ana Anic''"]
    parse_room_letter [of "[]" "[]" "[]" "[]" "[]" "js ''2024-03-10''" "js ''09:00''" "js ''10:00''"
      "0x62" "[chDash]" "js ''7''" "[]" "js ''Ana Anic''"]
  by (simp add: js_def slotHeader_def isDate_def isTime_def datePattern_def timePattern_def
      isDigit_def isLetter_def chDash_def chTab_def chNl_def chA_def chBar_def chColon_def trim_def
      trimStart_def trimEnd_def isWhiteSpace_def datePrefixed_def)

lemma pe_skip_any:
  assumes "i < length es"
    and "headerMatch (trim (es ! i)) = None \<or> \<not> Suc i < length es \<or>
         trim (es ! Suc i) = [] \<or> datePrefixed (trim (es ! Suc i))"
  shows "parseEntries es i acc = parseEntries es (Suc i) acc"
proof (cases "Suc i < length es")
  case False
  then show ?thesis using assms(1) by (simp add: pe_last pe_end)
next
  case True
  show ?thesis
  proof (cases "headerMatch (trim (es ! i)) = None")
    case True
    then show ?thesis using assms(1) by (simp add: pe_skip)
  next
    case False
    then have "trim (es ! Suc i) = [] \<or> datePrefixed (trim (es ! Suc i))"
      using assms(2) \<open>Suc i < length es\<close> by auto
    then show ?thesis using \<open>Suc i < length es\<close> by (rule pe_bad_name [rotated])
  qed
qed

text \<open>
  Claim C6. On every input the parser returns a list of events and throws nothing; and
  in the loop over the entries of a line, an entry that is no slot header, or is the last
  one, or is followed by an empty or date-prefixed entry, is passed over: the loop goes on
  at the next entry with the events unchanged.
\<close>

theorem parse_never_raises:
  "(\<exists>evs. parseSchedule input = Inr evs) \<and>
   (i < length es \<and>
    (headerMatch (trim (es ! i)) = None \<or> \<not> Suc i < length es \<or>
     trim (es ! Suc i) = [] \<or> datePrefixed (trim (es ! Suc i)))
    \<longrightarrow> parseEntries es i acc = parseEntries es (Suc i) acc)"
proof
  show "\<exists>evs. parseSchedule input = Inr evs"
    unfolding parseSchedule_def by (rule pl_total)
next
  show "i < length es \<and>
    (headerMatch (trim (es ! i)) = None \<or> \<not> Suc i < length es \<or>
     trim (es ! Suc i) = [] \<or> datePrefixed (trim (es ! Suc i)))
    \<longrightarrow> parseEntries es i acc = parseEntries es (Suc i) acc"
    using pe_skip_any [of i es acc] by blast
qed

text \<open>A line that is one slot header and nothing else.\<close>

theorem parse_never_raises_witness:
  "(\<exists>evs. parseSchedule (js ''2024-03-10|09:00|10:00|A1'') = Inr evs) \<and>
   parseEntries [js ''2024-03-10|09:00|10:00|A1''] 0 [] =
     parseEntries [js ''2024-03-10|09:00|10:00|A1''] (Suc 0) []"
  using parse_never_raises [of "js ''2024-03-10|09:00|10:00|A1''" 0 "[js ''2024-03-10|09:00|10:00|A1'']" "[]"]
  by simp

text \<open>
  Claim C7, as stated, fails: of two consecutive headers followed by a name, the second
  one yields an event.
\<close>

theorem consecutive_headers_counterexample:
  "parseSchedule (js ''2024-03-10|09:00|10:00|A1'' @ chTab # js ''2024-03-11|11:00|12:00|A2''
       @ chTab # js ''Ana Anic'') =
     Inr [\<lparr>date = js ''2024-03-11'', startTime = js ''11:00'', endTime = js ''12:00'',
           room = js ''A2'', name = js ''Ana Anic''\<rparr>]"
  by code_simp

text \<open>
  Claim C7, amended. Of two consecutive slot headers, the first contributes no event:
  the lookahead refuses the second header as a name and the loop goes on at the second
  header, which is then read as a header of its own. It yields one event when a valid
  name follows it, and none when it is the last entry or an empty or date-prefixed entry
  follows.
\<close>

theorem consecutive_headers:
  assumes "Suc i < length es"
    and "headerMatch (trim (es ! i)) \<noteq> None"
    and "headerMatch (trim (es ! Suc i)) = Some (d, s, e, r)"
  shows "parseEntries es i acc = parseEntries es (Suc i) acc \<and>
         parseEntries es (Suc i) acc =
           (if Suc (Suc i) < length es \<and> trim (es ! Suc (Suc i)) \<noteq> [] \<and>
               \<not> datePrefixed (trim (es ! Suc (Suc i)))
            then parseEntries es (Suc (Suc (Suc i)))
                   (acc @ [\<lparr>date = d, startTime = s, endTime = e, room = replace chDash [] r,
                            name = trim (es ! Suc (Suc i))\<rparr>])
            else parseEntries es (Suc (Suc i)) acc)"
proof
  have "datePrefixed (trim (es ! Suc i))"
    using assms(3) by (intro headerMatch_datePrefixed) simp
  then show "parseEntries es i acc = parseEntries es (Suc i) acc"
    using assms(1) by (intro pe_bad_name) simp_all
next
  show "parseEntries es (Suc i) acc =
           (if Suc (Suc i) < length es \<and> trim (es ! Suc (Suc i)) \<noteq> [] \<and>
               \<not> datePrefixed (trim (es ! Suc (Suc i)))
            then parseEntries es (Suc (Suc (Suc i)))
                   (acc @ [\<lparr>date = d, startTime = s, endTime = e, room = replace chDash [] r,
                            name = trim (es ! Suc (Suc i))\<rparr>])
            else parseEntries es (Suc (Suc i)) acc)"
  proof (cases "Suc (Suc i) < length es \<and> trim (es ! Suc (Suc i)) \<noteq> [] \<and>
               \<not> datePrefixed (trim (es ! Suc (Suc i)))")
    case True
    then show ?thesis using assms(3) pe_emit [of "Suc i" es d s e r acc] by simp
  next
    case False
    then have "parseEntries es (Suc i) acc = parseEntries es (Suc (Suc i)) acc"
      using assms(1) by (intro pe_skip_any) auto
    then show ?thesis using False by auto
  qed
qed

text \<open>A line of two headers and nothing else: no event from either.\<close>

theorem consecutive_headers_witness:
  "parseEntries [js ''2024-03-10|09:00|10:00|A1'', js ''2024-03-11|11:00|12:00|A2''] 0 [] =
     parseEntries [js ''2024-03-10|09:00|10:00|A1'', js ''2024-03-11|11:00|12:00|A2''] (Suc (Suc 0)) []"
  using consecutive_headers [of 0 "[js ''2024-03-10|09:00|10:00|A1'', js ''2024-03-11|11:00|12:00|A2'']"
      "js ''2024-03-11''" "js ''11:00''" "js ''12:00''" "js ''A2''" "[]"]
  by (simp add: js_def headerMatch_def matchRoom_def datePattern_def timePattern_def
      isDigit_def chDash_def chA_def chBar_def chColon_def trim_def
      trimStart_def trimEnd_def isWhiteSpace_def)

lemma matchRoom_shape:
  "matchRoom s = Some r \<Longrightarrow> roomInv (replace chDash [] r)"
proof -
  assume a: "matchRoom s = Some r"
  have nd: "chA \<noteq> chDash" by (simp add: chA_def chDash_def)
  have rp: "replace chDash [] (takeWhile isDigit t) = takeWhile isDigit t" for t
    by (rule replace_absent) (auto dest: set_takeWhileD isDigit_not_dash)
  have la: "list_all isDigit (takeWhile isDigit t)" for t
    by (auto simp: list_all_iff dest: set_takeWhileD)
  show ?thesis
    using a nd
    by (auto simp: matchRoom_def roomInv_def Let_def rp la isDigit_not_dash
        split: list.splits if_splits)
qed

lemma headerMatch_room: "headerMatch s = Some (d, a, b, r) \<Longrightarrow> roomInv (replace chDash [] r)"
proof -
  assume "headerMatch s = Some (d, a, b, r)"
  then obtain t where "matchRoom t = Some r"
    by (auto simp: headerMatch_def split: option.splits)
  then show ?thesis by (rule matchRoom_shape)
qed

lemma pe_inv:
  "parseEntries es i acc = Inr evs \<Longrightarrow> list_all eventInv acc \<Longrightarrow> list_all eventInv evs"
proof (induction "length es - i" arbitrary: i acc rule: less_induct)
  case less
  show ?case
  proof (cases "i < length es")
    case False
    then show ?thesis using less.prems by (simp add: pe_end)
  next
    case True
    show ?thesis
    proof (cases "headerMatch (trim (es ! i)) = None \<or> \<not> Suc i < length es \<or>
         trim (es ! Suc i) = [] \<or> datePrefixed (trim (es ! Suc i))")
      case True
      then have "parseEntries es (Suc i) acc = Inr evs"
        using \<open>i < length es\<close> less.prems(1) pe_skip_any [of i es acc] by simp
      moreover have "length es - Suc i < length es - i" using \<open>i < length es\<close> by simp
      ultimately show ?thesis using less.hyps less.prems(2) by blast
    next
      case False
      then obtain d s e r where hm: "headerMatch (trim (es ! i)) = Some (d, s, e, r)"
        by (cases "headerMatch (trim (es ! i))") auto
      let ?ev = "\<lparr>date = d, startTime = s, endTime = e, room = replace chDash [] r,
                  name = trim (es ! Suc i)\<rparr>"
      have "parseEntries es (Suc (Suc i)) (acc @ [?ev]) = Inr evs"
        using False hm less.prems(1) pe_emit [of i es d s e r acc] by simp
      moreover have "list_all eventInv (acc @ [?ev])"
        using less.prems(2) False headerMatch_room [OF hm] by (simp add: eventInv_def)
      moreover have "length es - Suc (Suc i) < length es - i" using \<open>i < length es\<close> by simp
      ultimately show ?thesis using less.hyps by blast
    qed
  qed
qed

lemma pl_inv:
  "parseLines ls acc = Inr evs \<Longrightarrow> list_all eventInv acc \<Longrightarrow> list_all eventInv evs"
proof (induction ls arbitrary: acc)
  case Nil
  then show ?case by simp
next
  case (Cons l ls)
  show ?case
  proof (cases "trim l = []")
    case True
    then show ?thesis using Cons by simp
  next
    case False
    obtain evs' where e: "parseEntries (filter (\<lambda>e. trim e \<noteq> []) (split chTab l)) 0 acc = Inr evs'"
      using pe_total by blast
    then have "list_all eventInv evs'" using Cons.prems(2) by (rule pe_inv)
    moreover have "parseLines ls evs' = Inr evs" using Cons.prems(1) False e by simp
    ultimately show ?thesis using Cons.IH by blast
  qed
qed

text \<open>
  Claim C10. Every event the parser emits has a room that is the letter A followed by
  digits only (at least one, and no dash), and a name that is not empty and does not
  start with a date.
\<close>

theorem parse_event_invariant:
  assumes "parseSchedule input = Inr evs" and "ev \<in> set evs"
  shows "eventInv ev"
proof -
  have "list_all eventInv evs"
    using assms(1) unfolding parseSchedule_def by (rule pl_inv) simp
  then show ?thesis using assms(2) by (simp add: list_all_iff)
qed

text \<open>The event of the line \<open>2024-03-10|09:00|10:00|A-101<tab>Ana Anic\<close>.\<close>

theorem parse_event_invariant_witness:
  "eventInv \<lparr>date = js ''2024-03-10'', startTime = js ''09:00'', endTime = js ''10:00'',
           room = js ''A101'', name = js ''Ana Anic''\<rparr>"
proof -
  have "parseSchedule (js ''2024-03-10|09:00|10:00|A-101'' @ chTab # js ''Ana Anic'') =
     Inr [\<lparr>date = js ''2024-03-10'', startTime = js ''09:00'', endTime = js ''10:00'',
           room = js ''A101'', name = js ''Ana Anic''\<rparr>]"
    by code_simp
  then show ?thesis by (rule parse_event_invariant) simp
qed

section \<open>Properties of the locator and the checker\<close>

lemma findInDivs_find:
  "findInDivs doc ev divs =
     (case find (\<lambda>dv. includes' (textContentAt doc dv) (slotPattern ev) \<and>
                        querySelector selAddControl doc dv \<noteq> None) divs of
        None \<Rightarrow> None
      | Some dv \<Rightarrow> querySelector selAddControl doc dv)"
  by (induction divs) (auto simp: Let_def split: option.splits)

text \<open>
  Claim C2, as stated, fails. On this page the first \<open>div\<close> of the editor whose text
  contains the slot text has no add control, and the locator still returns the add
  control of the second one.
\<close>

theorem locator_counterexample:
  "querySelectorAll selDiv staleDocument [0] = [[0, 0], [0, 1]] \<and>
   includes' (textContentAt staleDocument [0, 0]) (slotPattern demoEvent) \<and>
   querySelector selAddControl staleDocument [0, 0] = None \<and>
   findMatchingDiv staleDocument demoEvent = Some [0, 1, 1]"
  by code_simp

text \<open>
  Claim C2, amended. The locator goes through the \<open>div\<close>s of the editor in document
  order and returns the add control of the first one that both contains the text
  \<open>date start end room\<close> and has a nested add control; a \<open>div\<close> with the text and no
  add control is passed over. Not-found means that the page has no editor or no such
  \<open>div\<close>.
\<close>

theorem locator_first_with_control:
  "findMatchingDiv doc ev =
     (case getElementById doc (js ''editor'') of
        None \<Rightarrow> None
      | Some editor \<Rightarrow>
          (case find (\<lambda>dv. includes' (textContentAt doc dv) (slotPattern ev) \<and>
                             querySelector selAddControl doc dv \<noteq> None)
                  (querySelectorAll selDiv doc editor) of
             None \<Rightarrow> None
           | Some dv \<Rightarrow> querySelector selAddControl doc dv))"
  by (simp add: findMatchingDiv_def findInDivs_find split: option.splits)

lemma startsWith_iff: "startsWith t p = (\<exists>v. t = p @ v)"
  unfolding startsWith_def
  by (metis append_eq_conv_conj append_take_drop_id)

lemma includes_iff: "includes' t p = (\<exists>u v. t = u @ p @ v)"
proof (induction t)
  case Nil
  then show ?case by simp
next
  case (Cons c cs)
  have "(\<exists>u v. c # cs = u @ p @ v) = ((\<exists>v. c # cs = p @ v) \<or> (\<exists>u v. cs = u @ p @ v))"
  proof
    assume "\<exists>u v. c # cs = u @ p @ v"
    then obtain u v where uv: "c # cs = u @ p @ v" by blast
    show "(\<exists>v. c # cs = p @ v) \<or> (\<exists>u v. cs = u @ p @ v)"
    proof (cases u)
      case Nil
      then show ?thesis using uv by auto
    next
      case (Cons x u')
      then have "cs = u' @ p @ v" using uv by simp
      then show ?thesis by blast
    qed
  next
    assume "(\<exists>v. c # cs = p @ v) \<or> (\<exists>u v. cs = u @ p @ v)"
    then show "\<exists>u v. c # cs = u @ p @ v"
    proof
      assume "\<exists>v. c # cs = p @ v"
      then obtain v where "c # cs = [] @ p @ v" by auto
      then show ?thesis by blast
    next
      assume "\<exists>u v. cs = u @ p @ v"
      then obtain u v where "c # cs = (c # u) @ p @ v" by auto
      then show ?thesis by blast
    qed
  qed
  then show ?case using Cons by (simp add: startsWith_iff)
qed

lemma split_two: "sep \<notin> set a \<Longrightarrow> sep \<notin> set b \<Longrightarrow> split sep (a @ sep # b) = [a, b]"
  by (simp add: split_append split_no_sep)

text \<open>
  Claim C8. A name of two parts matches an entry text exactly when the text contains the
  first part and contains the last part, each somewhere, in any order. On a page whose
  slot lists one person, the assignment checker finds Ivan Horvat in the entries
  \<open>Horvat, Ivan\<close> and \<open>Ivan Horvat\<close>, and not in \<open>Ivan Novak\<close>.
\<close>

theorem name_match_two_parts:
  assumes "chSpace \<notin> set a" and "chSpace \<notin> set b"
  shows "nameMatches text (a @ chSpace # b) =
           ((\<exists>u v. text = u @ a @ v) \<and> (\<exists>u v. text = u @ b @ v)) \<and>
         isPersonAlreadyAssigned (listedPage [js ''Horvat, Ivan'']) [0, 0, 1] (js ''Ivan Horvat'') \<and>
         isPersonAlreadyAssigned (listedPage [js ''Ivan Horvat'']) [0, 0, 1] (js ''Ivan Horvat'') \<and>
         \<not> isPersonAlreadyAssigned (listedPage [js ''Ivan Novak'']) [0, 0, 1] (js ''Ivan Horvat'')"
proof -
  have "nameMatches text (a @ chSpace # b) = (includes' text b \<and> includes' text a)"
    using assms by (simp add: nameMatches_def split_two)
  then have 1: "nameMatches text (a @ chSpace # b) =
           ((\<exists>u v. text = u @ a @ v) \<and> (\<exists>u v. text = u @ b @ v))"
    by (auto simp: includes_iff)
  have 2: "isPersonAlreadyAssigned (listedPage [js ''Horvat, Ivan'']) [0, 0, 1] (js ''Ivan Horvat'')"
    by code_simp
  have 3: "isPersonAlreadyAssigned (listedPage [js ''Ivan Horvat'']) [0, 0, 1] (js ''Ivan Horvat'')"
    by code_simp
  have 4: "\<not> isPersonAlreadyAssigned (listedPage [js ''Ivan Novak'']) [0, 0, 1] (js ''Ivan Horvat'')"
    by code_simp
  show ?thesis using 1 2 3 4 by blast
qed

text \<open>The name \<open>Ivan Horvat\<close> against the entry \<open>Horvat, Ivan\<close>.\<close>

theorem name_match_two_parts_witness:
  "nameMatches (js ''Horvat, Ivan'') (js ''Ivan'' @ chSpace # js ''Horvat'') =
     ((\<exists>u v. js ''Horvat, Ivan'' = u @ js ''Ivan'' @ v) \<and>
      (\<exists>u v. js ''Horvat, Ivan'' = u @ js ''Horvat'' @ v))"
  using name_match_two_parts [of "js ''Ivan''" "js ''Horvat''" "js ''Horvat, Ivan''"]
  by (simp add: js_def chSpace_def)

text \<open>
  Claim C9. When the locator finds no slot for an event, the turn of the loop adds the
  description of the event to \<open>slotNotFound\<close> and to nothing else, and leaves the page
  and the trace of clicks and timers as they were: nothing is clicked and no wait is
  started. The loop goes on with the next event.
\<close>

theorem slot_not_found_no_interaction:
  assumes "findMatchingDiv (page S w) ev = None"
  shows "processEvent S ev (r, w) = Some (r\<lparr>slotNotFound := slotNotFound r @ [eventStr ev]\<rparr>, w) \<and>
         processLoop S (ev # evs) (r, w) =
           processLoop S evs (r\<lparr>slotNotFound := slotNotFound r @ [eventStr ev]\<rparr>, w)"
  using assms by (simp add: processEvent_def)

text \<open>An event for room A2 on a page that has a slot for room A1 only.\<close>

theorem slot_not_found_no_interaction_witness:
  "processEvents (demoSurface 0 0 [js ''Horvat, Ivan'']) [demoEvent\<lparr>room := js ''A2''\<rparr>] demoStart =
     Some (noResults\<lparr>slotNotFound := [js ''2024-03-10 09:00-10:00 A2 - Ivan Horvat'']\<rparr>, demoStart)"
proof -
  have "findMatchingDiv (page (demoSurface 0 0 [js ''Horvat, Ivan'']) demoStart)
          (demoEvent\<lparr>room := js ''A2''\<rparr>) = None"
    by code_simp
  moreover have "eventStr (demoEvent\<lparr>room := js ''A2''\<rparr>) = js ''2024-03-10 09:00-10:00 A2 - Ivan Horvat''"
    by code_simp
  ultimately show ?thesis
    using slot_not_found_no_interaction [of "demoSurface 0 0 [js ''Horvat, Ivan'']" demoStart
        "demoEvent\<lparr>room := js ''A2''\<rparr>" noResults "[]"]
    by (simp add: processEvents_def noResults_def)
qed

section \<open>Properties of the batch processor\<close>

lemma checkDialog_settles:
  assumes "clockAdvances S"
  shows "\<exists>res w'. checkDialog S st to w = Some (res, w')"
proof (induction "nat (st + to + 1 - now S (surf w))" arbitrary: w rule: less_induct)
  case less
  let ?w = "sleep S 100 w"
  have adv: "now S (surf w) < now S (surf ?w)"
    using assms by (simp add: clockAdvances_def sleep_def)
  show ?case
  proof (cases "dialogShown (page S ?w)")
    case (Some d)
    then show ?thesis by (subst checkDialog.simps) simp
  next
    case None
    show ?thesis
    proof (cases "now S (surf ?w) - st > to")
      case True
      then show ?thesis using None by (subst checkDialog.simps) simp
    next
      case False
      then have "nat (st + to + 1 - now S (surf ?w)) < nat (st + to + 1 - now S (surf w))"
        using adv by linarith
      then obtain res w' where "checkDialog S st to ?w = Some (res, w')"
        using less.hyps by blast
      then show ?thesis using None False by (subst checkDialog.simps) simp
    qed
  qed
qed

lemma checkDialogClose_settles:
  assumes "clockAdvances S"
  shows "\<exists>res w'. checkDialogClose S st to w = Some (res, w')"
proof (induction "nat (st + to + 1 - now S (surf w))" arbitrary: w rule: less_induct)
  case less
  let ?w = "sleep S 100 w"
  have adv: "now S (surf w) < now S (surf ?w)"
    using assms by (simp add: clockAdvances_def sleep_def)
  show ?case
  proof (cases "dialogGone (page S ?w) \<or> now S (surf ?w) - st > to")
    case True
    then show ?thesis by (subst checkDialogClose.simps) (auto simp: Let_def)
  next
    case False
    then have "nat (st + to + 1 - now S (surf ?w)) < nat (st + to + 1 - now S (surf w))"
      using adv by linarith
    then obtain res w' where "checkDialogClose S st to ?w = Some (res, w')"
      using less.hyps by blast
    then show ?thesis using False by (subst checkDialogClose.simps) simp
  qed
qed

lemma entries_simps:
  "entries (r\<lparr>success := success r @ [s]\<rparr>) = success r @ [s] @ alreadyAssigned r @ slotNotFound r @ personNotFound r @ map fst (errors r)"
  "entries (r\<lparr>alreadyAssigned := alreadyAssigned r @ [s]\<rparr>) = success r @ alreadyAssigned r @ [s] @ slotNotFound r @ personNotFound r @ map fst (errors r)"
  "entries (r\<lparr>slotNotFound := slotNotFound r @ [s]\<rparr>) = success r @ alreadyAssigned r @ slotNotFound r @ [s] @ personNotFound r @ map fst (errors r)"
  "entries (r\<lparr>personNotFound := personNotFound r @ [s]\<rparr>) = success r @ alreadyAssigned r @ slotNotFound r @ personNotFound r @ [s] @ map fst (errors r)"
  "entries (r\<lparr>errors := errors r @ [(s, m)]\<rparr>) = success r @ alreadyAssigned r @ slotNotFound r @ personNotFound r @ map fst (errors r) @ [s]"
  by (simp_all add: entries_def)

lemma mset_entries:
  "mset (entries (r\<lparr>success := success r @ [s]\<rparr>)) = add_mset s (mset (entries r))"
  "mset (entries (r\<lparr>alreadyAssigned := alreadyAssigned r @ [s]\<rparr>)) = add_mset s (mset (entries r))"
  "mset (entries (r\<lparr>slotNotFound := slotNotFound r @ [s]\<rparr>)) = add_mset s (mset (entries r))"
  "mset (entries (r\<lparr>personNotFound := personNotFound r @ [s]\<rparr>)) = add_mset s (mset (entries r))"
  "mset (entries (r\<lparr>errors := errors r @ [(s, m)]\<rparr>)) = add_mset s (mset (entries r))"
  by (simp_all add: entries_def)

lemma processEvent_one_outcome:
  assumes "clockAdvances S"
  shows "\<exists>r' w'. processEvent S ev (r, w) = Some (r', w') \<and>
           mset (entries r') = add_mset (eventStr ev) (mset (entries r))"
proof (cases "findMatchingDiv (page S w) ev")
  case None
  then show ?thesis by (simp add: processEvent_def mset_entries)
next
  case (Some btn)
  show ?thesis
  proof (cases "isPersonAlreadyAssigned (page S w) btn (name ev)")
    case True
    then show ?thesis using Some by (simp add: processEvent_def mset_entries)
  next
    case False
    obtain res w2 where wd: "waitForDialog S 5000 (doClick S btn w) = Some (res, w2)"
      unfolding waitForDialog_def using checkDialog_settles [OF assms] by blast
    show ?thesis
    proof (cases res)
      case (Inl err)
      then show ?thesis using Some False wd by (simp add: processEvent_def mset_entries)
    next
      case (Inr dialog)
      show ?thesis
      proof (cases "findPersonInDialog (page S (sleep S 300 w2)) (name ev)")
        case None
        then show ?thesis
          using Some False wd Inr by (simp add: processEvent_def mset_entries Let_def)
      next
        case (Some personDiv)
        obtain res' w5 where wc:
          "waitForDialogClose S 5000 (doClick S personDiv (sleep S 300 w2)) = Some (res', w5)"
          unfolding waitForDialogClose_def using checkDialogClose_settles [OF assms] by blast
        show ?thesis
          using \<open>findMatchingDiv (page S w) ev = Some btn\<close> False wd Inr Some wc
          by (cases res') (simp_all add: processEvent_def mset_entries Let_def)
      qed
    qed
  qed
qed

lemma processLoop_outcomes:
  assumes "clockAdvances S"
  shows "\<exists>r' w'. processLoop S events (r, w) = Some (r', w') \<and>
           mset (entries r') = mset (map eventStr events) + mset (entries r)"
proof (induction events arbitrary: r w)
  case Nil
  show ?case by simp
next
  case (Cons ev evs)
  obtain r1 w1 where 1: "processEvent S ev (r, w) = Some (r1, w1)"
    and m1: "mset (entries r1) = add_mset (eventStr ev) (mset (entries r))"
    using processEvent_one_outcome [OF assms] by blast
  obtain r' w' where 2: "processLoop S evs (r1, w1) = Some (r', w')"
    and m2: "mset (entries r') = mset (map eventStr evs) + mset (entries r1)"
    using Cons.IH by blast
  show ?case using 1 2 m1 m2 by simp
qed

text \<open>
  Claim C1, amended. On a page whose clock moves on between two polls, \<open>processEvents\<close>
  returns a report for every list of events; the five sequences of the report have as
  many entries together as there are events, and their descriptions, counted as often
  as they occur, are the descriptions of the events: every event is recorded once. So
  when the events have distinct descriptions, no description occurs twice in the
  report.
\<close>

theorem batch_report_complete:
  assumes "clockAdvances S"
  shows "\<exists>r w'. processEvents S events w = Some (r, w') \<and>
           length (success r) + length (alreadyAssigned r) + length (slotNotFound r) +
             length (personNotFound r) + length (errors r) = length events \<and>
           mset (entries r) = mset (map eventStr events) \<and>
           (distinct (map eventStr events) \<longrightarrow> distinct (entries r))"
proof -
  obtain r w' where 1: "processEvents S events w = Some (r, w')"
    and m: "mset (entries r) = mset (map eventStr events)"
    using processLoop_outcomes [OF assms, of events noResults w]
    by (auto simp: processEvents_def noResults_def entries_def)
  have "length (entries r) = length (map eventStr events)"
    using m by (rule mset_eq_length)
  then have 2: "length (success r) + length (alreadyAssigned r) + length (slotNotFound r) +
             length (personNotFound r) + length (errors r) = length events"
    by (simp add: entries_def)
  have 3: "distinct (map eventStr events) \<longrightarrow> distinct (entries r)"
    using m by (metis mset_eq_imp_distinct_iff)
  show ?thesis using 1 2 3 m by blast
qed

text \<open>
  Claim C1, as stated, fails when an event occurs twice in the input: the first
  occurrence is filled in, the second finds the person assigned, and the one
  description stands in \<open>success\<close> and in \<open>alreadyAssigned\<close>.
\<close>

theorem batch_report_counterexample:
  "map_option fst (processEvents (demoSurface 0 0 [js ''Horvat, Ivan'']) [demoEvent, demoEvent] demoStart) =
     Some \<lparr>success = [js ''2024-03-10 09:00-10:00 A1 - Ivan Horvat''],
           alreadyAssigned = [js ''2024-03-10 09:00-10:00 A1 - Ivan Horvat''],
           slotNotFound = [], personNotFound = [], errors = []\<rparr>"
  by code_simp

text \<open>One event on the example page.\<close>

theorem batch_report_complete_witness:
  "\<exists>r w'. processEvents (demoSurface 0 0 [js ''Horvat, Ivan'']) [demoEvent] demoStart = Some (r, w') \<and>
           length (success r) + length (alreadyAssigned r) + length (slotNotFound r) +
             length (personNotFound r) + length (errors r) = 1 \<and>
           mset (entries r) = {#eventStr demoEvent#} \<and> distinct (entries r)"
  using batch_report_complete [of "demoSurface 0 0 [js ''Horvat, Ivan'']" "[demoEvent]" demoStart]
  by (simp add: clockAdvances_def demoSurface_def)








end
